theory Spec2Isabelle
  imports Complex_Main
begin

section \<open>Arrays, errors and the numpy operations used by the notebook\<close>

text \<open>
  The notebook computes with numpy arrays of doubles.  The embedding writes the entries
  as reals and does not model rounding, overflow or underflow: a one-dimensional array
  is a list, a two-dimensional array carries its shape \<open>(nrows, ncols)\<close> next to its
  rows, as \<open>ndarray.shape\<close> does, so that an array with no rows still has a column
  count.  The theorems of this theory are the ones that do not depend on how the
  entries are rounded: which operations run and in which order, which shapes fit,
  which exception is raised, and identities between the entries that every double
  satisfies too.  What the double-precision result is worth numerically is outside
  this embedding.
\<close>

type_synonym vec = "real list"

datatype mat = Mat (nrows: nat) (ncols: nat) (elems: "real list list")

text \<open>
  The two exceptions numpy raises on the paths of this program:
  \<open>numpy.linalg.LinAlgError\<close> (a singular or non-square argument of
  \<open>np.linalg.inv\<close>) and \<open>ValueError\<close> (operands whose shapes do not fit).
\<close>

datatype error = LinAlgError | ValueError

definition ebind :: "error + 'a \<Rightarrow> ('a \<Rightarrow> error + 'b) \<Rightarrow> error + 'b" where
  "ebind m f = (case m of Inl e \<Rightarrow> Inl e | Inr x \<Rightarrow> f x)"

definition is_mat :: "nat \<Rightarrow> nat \<Rightarrow> mat \<Rightarrow> bool" where
  "is_mat n k M \<longleftrightarrow>
     nrows M = n \<and> ncols M = k \<and> length (elems M) = n \<and> list_all (\<lambda>r. length r = k) (elems M)"

definition dot :: "vec \<Rightarrow> vec \<Rightarrow> real" where
  "dot a b = sum_list (map2 (*) a b)"

definition col :: "mat \<Rightarrow> nat \<Rightarrow> vec" where
  "col M j = map (\<lambda>r. r ! j) (elems M)"

definition mvec :: "mat \<Rightarrow> vec \<Rightarrow> vec" where
  "mvec M v = map (\<lambda>r. dot r v) (elems M)"

definition mmul :: "mat \<Rightarrow> mat \<Rightarrow> mat" where
  "mmul A B = Mat (nrows A) (ncols B)
     (map (\<lambda>r. map (\<lambda>j. dot r (col B j)) [0..<ncols B]) (elems A))"

text \<open>\<open>X.T\<close>\<close>

definition mat_T :: "mat \<Rightarrow> mat" where
  "mat_T M = Mat (ncols M) (nrows M) (map (col M) [0..<ncols M])"

text \<open>\<open>np.diag(v)\<close> for a one-dimensional \<open>v\<close>\<close>

definition diag :: "vec \<Rightarrow> mat" where
  "diag v = Mat (length v) (length v)
     (map (\<lambda>i. map (\<lambda>j. if i = j then v ! i else 0) [0..<length v]) [0..<length v])"

text \<open>\<open>M**2\<close>: the elementwise square\<close>

definition mat_pow2 :: "mat \<Rightarrow> mat" where
  "mat_pow2 M = Mat (nrows M) (ncols M) (map (map (\<lambda>x. x ^ 2)) (elems M))"

definition unit_vec :: "nat \<Rightarrow> nat \<Rightarrow> vec" where
  "unit_vec n i = map (\<lambda>j. if i = j then 1 else 0) [0..<n]"

definition mat_id :: "nat \<Rightarrow> mat" where
  "mat_id n = Mat n n (map (unit_vec n) [0..<n])"

definition zeros :: "nat \<Rightarrow> vec" where
  "zeros n = replicate n 0"

text \<open>
  The operator \<open>@\<close> on a matrix and a matrix, and on a matrix and a vector: numpy
  raises \<open>ValueError\<close> when the inner dimensions differ.
\<close>

definition matmul :: "mat \<Rightarrow> mat \<Rightarrow> error + mat" where
  "matmul A B = (if ncols A = nrows B then Inr (mmul A B) else Inl ValueError)"

definition matvec :: "mat \<Rightarrow> vec \<Rightarrow> error + vec" where
  "matvec A v = (if ncols A = length v then Inr (mvec A v) else Inl ValueError)"

subsection \<open>\<open>np.linalg.inv\<close>\<close>

text \<open>
  \<open>np.linalg.inv\<close> is a library routine (LAPACK's LU solve against the identity, in
  doubles).  Its stand-in here is Gauss-Jordan elimination on the rows of the
  augmented matrix \<open>[A | I]\<close> over the reals: for each column the first remaining row
  with a non-zero entry is the pivot; when no such row exists the routine raises
  \<open>LinAlgError\<close>, as numpy does on a zero pivot.  A non-square argument raises
  \<open>LinAlgError\<close> too.  On a matrix that is singular or nearly so the library's rounded
  pivots can differ from the exact ones, so no theorem below rests on whether an
  inversion of \<open>X\<^sup>TWX\<close> succeeds.
\<close>

type_synonym arow = "vec \<times> vec"

definition row_scale :: "real \<Rightarrow> arow \<Rightarrow> arow" where
  "row_scale c r = (map ((*) c) (fst r), map ((*) c) (snd r))"

definition axpy :: "vec \<Rightarrow> real \<Rightarrow> vec \<Rightarrow> vec" where
  "axpy a c p = map2 (\<lambda>x y. x - c * y) a p"

definition row_elim :: "nat \<Rightarrow> arow \<Rightarrow> arow \<Rightarrow> arow" where
  "row_elim j p r = (axpy (fst r) (fst r ! j) (fst p), axpy (snd r) (fst r ! j) (snd p))"

fun gauss_jordan :: "nat list \<Rightarrow> arow list \<Rightarrow> arow list \<Rightarrow> arow list option" where
  "gauss_jordan [] fin rest = Some fin"
| "gauss_jordan (j # js) fin rest =
     (case List.extract (\<lambda>r. fst r ! j \<noteq> 0) rest of
        None \<Rightarrow> None
      | Some (pre, r, post) \<Rightarrow>
          (let p = row_scale (1 / (fst r ! j)) r
           in gauss_jordan js (map (row_elim j p) fin @ [p]) (map (row_elim j p) (pre @ post))))"

definition inv :: "mat \<Rightarrow> error + mat" where
  "inv A =
     (if nrows A \<noteq> ncols A then Inl LinAlgError
      else (case gauss_jordan [0..<nrows A] [] (zip (elems A) (elems (mat_id (nrows A)))) of
              None \<Rightarrow> Inl LinAlgError
            | Some rs \<Rightarrow> Inr (Mat (nrows A) (nrows A) (map snd rs))))"

section \<open>The solver \<open>linreg\<close>\<close>

text \<open>
  The three assignments of \<open>linreg\<close>, in evaluation order; \<open>@\<close> associates to the
  left, and the product \<open>X.T @ inv_N @ X\<close> and its inverse are written, and so
  evaluated, twice.
\<close>

definition linreg :: "mat \<Rightarrow> vec \<Rightarrow> vec \<Rightarrow> error + (vec \<times> mat)" where
  "linreg X flux err =
     ebind (inv (mat_pow2 (diag err))) (\<lambda>inv_N.
     ebind (matmul (mat_T X) inv_N) (\<lambda>b1.
     ebind (matmul b1 X) (\<lambda>b2.
     ebind (inv b2) (\<lambda>b3.
     ebind (matmul b3 (mat_T X)) (\<lambda>b4.
     ebind (matmul b4 inv_N) (\<lambda>b5.
     ebind (matvec b5 flux) (\<lambda>betas.
     ebind (matmul (mat_T X) inv_N) (\<lambda>c1.
     ebind (matmul c1 X) (\<lambda>c2.
     ebind (inv c2) (\<lambda>cov.
     Inr (betas, cov)))))))))))"


section \<open>The design matrix and the reconstruction cells\<close>

text \<open>
  \<open>np.vstack\<close> on a list of one-dimensional arrays makes each array one row; it raises
  \<open>ValueError\<close> on an empty list and on arrays of different lengths.  The notebook
  builds \<open>X_true\<close> and \<open>X_obs\<close> as \<open>np.vstack([...]).T\<close>.
\<close>

definition vstack :: "vec list \<Rightarrow> error + mat" where
  "vstack vs =
     (case vs of
        [] \<Rightarrow> Inl ValueError
      | v # _ \<Rightarrow>
          if list_all (\<lambda>w. length w = length v) vs
          then Inr (Mat (length vs) (length v) vs) else Inl ValueError)"

definition vstack_T :: "vec list \<Rightarrow> error + mat" where
  "vstack_T vs = ebind (vstack vs) (\<lambda>M. Inr (mat_T M))"

text \<open>\<open>X_obs[:, :-1]\<close>; the slice \<open>betas[:-1]\<close> of a vector is \<open>butlast\<close>.\<close>

definition drop_last_col :: "mat \<Rightarrow> mat" where
  "drop_last_col M = Mat (nrows M) (ncols M - 1) (map butlast (elems M))"

text \<open>
  \<open>a - b\<close> on one-dimensional arrays: elementwise on equal lengths, an array of
  length one is broadcast, any other pair of lengths raises \<open>ValueError\<close>.
\<close>

definition vsub :: "vec \<Rightarrow> vec \<Rightarrow> error + vec" where
  "vsub a b =
     (if length a = length b then Inr (map2 (-) a b)
      else if length a = 1 then Inr (map (\<lambda>y. hd a - y) b)
      else if length b = 1 then Inr (map (\<lambda>x. x - hd b) a)
      else Inl ValueError)"

text \<open>\<open>best_flux_model = X_obs @ betas\<close>\<close>

definition best_flux_model :: "mat \<Rightarrow> vec \<Rightarrow> error + vec" where
  "best_flux_model X_obs betas = matvec X_obs betas"

text \<open>The recovered signal \<open>flux_observed - (X_obs[:, :-1] @ betas[:-1])\<close>\<close>

definition recovered_signal :: "mat \<Rightarrow> vec \<Rightarrow> vec \<Rightarrow> error + vec" where
  "recovered_signal X_obs betas flux_observed =
     ebind (matvec (drop_last_col X_obs) (butlast betas)) (\<lambda>m. vsub flux_observed m)"

section \<open>The library calls a run of \<open>linreg\<close> makes\<close>

text \<open>
  The same three assignments, recording every call of \<open>np.linalg.inv\<close> and of
  \<open>@\<close> with its arguments in the order of evaluation.  A raised exception leaves no
  record.
\<close>

datatype call = Inv mat | MatMul mat mat | MatVec mat vec

type_synonym 'a traced = "error + ('a \<times> call list)"

definition tbind :: "'a traced \<Rightarrow> ('a \<Rightarrow> 'b traced) \<Rightarrow> 'b traced" where
  "tbind m f =
     (case m of
        Inl e \<Rightarrow> Inl e
      | Inr (x, l) \<Rightarrow> (case f x of Inl e \<Rightarrow> Inl e | Inr (y, l') \<Rightarrow> Inr (y, l @ l')))"

definition record_call :: "call \<Rightarrow> error + 'a \<Rightarrow> 'a traced" where
  "record_call c r = (case r of Inl e \<Rightarrow> Inl e | Inr x \<Rightarrow> Inr (x, [c]))"

definition inv_t :: "mat \<Rightarrow> mat traced" where
  "inv_t A = record_call (Inv A) (inv A)"

definition matmul_t :: "mat \<Rightarrow> mat \<Rightarrow> mat traced" where
  "matmul_t A B = record_call (MatMul A B) (matmul A B)"

definition matvec_t :: "mat \<Rightarrow> vec \<Rightarrow> vec traced" where
  "matvec_t A v = record_call (MatVec A v) (matvec A v)"

definition linreg_traced :: "mat \<Rightarrow> vec \<Rightarrow> vec \<Rightarrow> (vec \<times> mat) traced" where
  "linreg_traced X flux err =
     tbind (inv_t (mat_pow2 (diag err))) (\<lambda>inv_N.
     tbind (matmul_t (mat_T X) inv_N) (\<lambda>b1.
     tbind (matmul_t b1 X) (\<lambda>b2.
     tbind (inv_t b2) (\<lambda>b3.
     tbind (matmul_t b3 (mat_T X)) (\<lambda>b4.
     tbind (matmul_t b4 inv_N) (\<lambda>b5.
     tbind (matvec_t b5 flux) (\<lambda>betas.
     tbind (matmul_t (mat_T X) inv_N) (\<lambda>c1.
     tbind (matmul_t c1 X) (\<lambda>c2.
     tbind (inv_t c2) (\<lambda>cov.
     Inr ((betas, cov), [])))))))))))"

section \<open>The quantities the specification names\<close>

text \<open>
  The weights \<open>1/\<sigma>\<^sub>i\<^sup>2\<close>, the diagonal weight matrix \<open>W\<close> and the inner matrix
  \<open>X\<^sup>TWX\<close> of the normal equations.
\<close>

definition weights :: "vec \<Rightarrow> vec" where
  "weights \<sigma> = map (\<lambda>s. 1 / s ^ 2) \<sigma>"

definition weight_mat :: "vec \<Rightarrow> mat" where
  "weight_mat \<sigma> = diag (weights \<sigma>)"

definition normal_mat :: "mat \<Rightarrow> vec \<Rightarrow> mat" where
  "normal_mat X \<sigma> = mmul (mmul (mat_T X) (weight_mat \<sigma>)) X"

text \<open>
  The model vector and the recovered signal as the specification words them: row by
  row, the sum over all columns, and the observation minus the sum over all columns
  except the signal-template column \<open>sig\<close>.
\<close>

definition model_spec :: "mat \<Rightarrow> vec \<Rightarrow> vec" where
  "model_spec X \<beta> =
     map (\<lambda>i. sum_list (map (\<lambda>j. elems X ! i ! j * \<beta> ! j) [0..<ncols X])) [0..<nrows X]"

definition recovered_spec :: "nat \<Rightarrow> mat \<Rightarrow> vec \<Rightarrow> vec \<Rightarrow> vec" where
  "recovered_spec sig X \<beta> y =
     map (\<lambda>i. y ! i -
            sum_list (map (\<lambda>j. elems X ! i ! j * \<beta> ! j) (filter (\<lambda>j. j \<noteq> sig) [0..<ncols X])))
       [0..<nrows X]"

section \<open>Invariants of the elimination\<close>

text \<open>
  A pair \<open>(v, u)\<close> satisfies an augmented row \<open>(a, b)\<close> when \<open>a \<cdot> v = b \<cdot> u\<close>.  The rows
  \<open>[A | I]\<close> are satisfied exactly when \<open>A v = u\<close>, the rows \<open>[I | B]\<close> exactly when
  \<open>v = B u\<close>, and every row operation keeps the set of satisfying pairs.
\<close>

definition sat :: "vec \<Rightarrow> vec \<Rightarrow> arow \<Rightarrow> bool" where
  "sat v u r \<longleftrightarrow> dot (fst r) v = dot (snd r) u"

definition wf_row :: "nat \<Rightarrow> arow \<Rightarrow> bool" where
  "wf_row k r \<longleftrightarrow> length (fst r) = k \<and> length (snd r) = k"

text \<open>
  After \<open>j\<close> columns the finished rows carry the first \<open>j\<close> unit vectors on those
  columns and the remaining rows are zero there.
\<close>

definition reduced :: "nat \<Rightarrow> arow list \<Rightarrow> arow list \<Rightarrow> bool" where
  "reduced j fin rest \<longleftrightarrow>
     length fin = j \<and>
     (\<forall>i<j. \<forall>l<j. fst (fin ! i) ! l = (if l = i then 1 else 0)) \<and>
     (\<forall>r\<in>set rest. \<forall>l<j. fst r ! l = 0)"


section \<open>Vectors and row operations\<close>

lemma dot_Nil [simp]: "dot [] v = 0" "dot a [] = 0"
  by (simp_all add: dot_def)

lemma dot_Cons [simp]: "dot (x # a) (y # v) = x * y + dot a v"
  by (simp add: dot_def)

lemma dot_nth: "length a = length b \<Longrightarrow> dot a b = (\<Sum>i<length a. a ! i * b ! i)"
  by (induction a b rule: list_induct2) (simp_all add: sum.lessThan_Suc_shift del: sum.lessThan_Suc)

lemma dot_scale_left: "dot (map ((*) c) a) v = c * dot a v"
proof (induction a arbitrary: v)
  case Nil
  show ?case by simp
next
  case (Cons x a)
  then show ?case by (cases v) (simp_all add: algebra_simps)
qed

lemma dot_axpy: "length a = length p \<Longrightarrow> dot (axpy a c p) v = dot a v - c * dot p v"
proof (induction a p arbitrary: v rule: list_induct2)
  case Nil
  show ?case by (simp add: axpy_def)
next
  case (Cons x a y p)
  have step: "axpy (x # a) c (y # p) = (x - c * y) # axpy a c p"
    by (simp add: axpy_def)
  show ?case
  proof (cases v)
    case Nil
    then show ?thesis by simp
  next
    case (Cons z w)
    then show ?thesis using Cons.IH [of w] by (simp add: step algebra_simps)
  qed
qed

lemma dot_zeros_right [simp]: "dot a (zeros n) = 0"
proof (induction a arbitrary: n)
  case Nil
  show ?case by simp
next
  case (Cons x a)
  then show ?case by (cases n) (simp_all add: zeros_def)
qed

lemma length_zeros [simp]: "length (zeros n) = n"
  by (simp add: zeros_def)

lemma nth_zeros [simp]: "i < n \<Longrightarrow> zeros n ! i = 0"
  by (simp add: zeros_def)

lemma length_axpy [simp]: "length (axpy a c p) = min (length a) (length p)"
  by (simp add: axpy_def)

lemma nth_axpy: "i < length a \<Longrightarrow> i < length p \<Longrightarrow> axpy a c p ! i = a ! i - c * p ! i"
  by (simp add: axpy_def)

lemma wf_row_scale [simp]: "wf_row k (row_scale c r) = wf_row k r"
  by (simp add: wf_row_def row_scale_def)

lemma wf_row_elim: "wf_row k p \<Longrightarrow> wf_row k r \<Longrightarrow> wf_row k (row_elim j p r)"
  by (simp add: wf_row_def row_elim_def)

lemma sat_row_scale: "c \<noteq> 0 \<Longrightarrow> sat v u (row_scale c r) = sat v u r"
  by (simp add: sat_def row_scale_def dot_scale_left)

lemma sat_row_elim:
  "wf_row k p \<Longrightarrow> wf_row k r \<Longrightarrow> sat v u p \<Longrightarrow> sat v u (row_elim j p r) = sat v u r"
  by (simp add: sat_def row_elim_def wf_row_def dot_axpy)

lemma step_sat:
  assumes wf: "\<forall>x\<in>S. wf_row k x" "wf_row k r"
    and c: "c \<noteq> 0"
  shows "(sat v u (row_scale c r) \<and> (\<forall>x\<in>S. sat v u (row_elim j (row_scale c r) x)))
       = (sat v u r \<and> (\<forall>x\<in>S. sat v u x))"
proof (cases "sat v u (row_scale c r)")
  case True
  have "wf_row k (row_scale c r)" using wf(2) by simp
  then have "\<forall>x\<in>S. sat v u (row_elim j (row_scale c r) x) = sat v u x"
    using wf(1) True sat_row_elim by blast
  then show ?thesis using sat_row_scale [OF c] by blast
next
  case False
  then show ?thesis using sat_row_scale [OF c] by blast
qed

lemma gj_sound:
  assumes "gauss_jordan js fin rest = Some out"
    and "length rest = length js"
    and "\<forall>x\<in>set fin \<union> set rest. wf_row k x"
  shows "(\<forall>x\<in>set out. wf_row k x) \<and>
         ((\<forall>x\<in>set out. sat v u x) = (\<forall>x\<in>set fin \<union> set rest. sat v u x))"
  using assms
proof (induction js arbitrary: fin rest)
  case Nil
  then show ?case by simp
next
  case (Cons j js)
  from Cons.prems(1) obtain pre r post
    where ex: "List.extract (\<lambda>r. fst r ! j \<noteq> 0) rest = Some (pre, r, post)"
    by (auto split: option.splits)
  define p where "p = row_scale (1 / (fst r ! j)) r"
  define S where "S = set fin \<union> set pre \<union> set post"
  from ex have rest: "rest = pre @ r # post" and nz: "fst r ! j \<noteq> 0"
    by (simp_all add: extract_Some_iff)
  have call: "gauss_jordan js (map (row_elim j p) fin @ [p]) (map (row_elim j p) (pre @ post)) = Some out"
    using Cons.prems(1) ex by (simp add: p_def Let_def)
  have len: "length (map (row_elim j p) (pre @ post)) = length js"
    using Cons.prems(2) rest by simp
  have wfS: "\<forall>x\<in>S. wf_row k x" and wfr: "wf_row k r"
    using Cons.prems(3) rest by (auto simp: S_def)
  have wfp: "wf_row k p" using wfr by (simp add: p_def)
  have new: "set (map (row_elim j p) fin @ [p]) \<union> set (map (row_elim j p) (pre @ post))
            = insert p (row_elim j p ` S)"
    by (auto simp: S_def)
  have wfnew: "\<forall>x\<in>set (map (row_elim j p) fin @ [p]) \<union> set (map (row_elim j p) (pre @ post)). wf_row k x"
    unfolding new using wfS wfp wf_row_elim by auto
  have old: "set fin \<union> set rest = insert r S"
    using rest by (auto simp: S_def)
  have c: "1 / (fst r ! j) \<noteq> 0" using nz by simp
  have "(\<forall>x\<in>insert p (row_elim j p ` S). sat v u x) = (\<forall>x\<in>insert r S. sat v u x)"
    using step_sat [OF wfS wfr c, of v u j] by (simp add: p_def)
  then show ?case
    using Cons.IH [OF call len wfnew] unfolding new old by simp
qed

lemma fst_row_scale_nth: "l < length (fst r) \<Longrightarrow> fst (row_scale c r) ! l = c * fst r ! l"
  by (simp add: row_scale_def)

lemma fst_row_elim_nth:
  "wf_row k p \<Longrightarrow> wf_row k x \<Longrightarrow> l < k \<Longrightarrow>
   fst (row_elim j p x) ! l = fst x ! l - fst x ! j * fst p ! l"
  by (simp add: row_elim_def wf_row_def nth_axpy)

lemma reduced_step:
  assumes red: "reduced j fin (pre @ r # post)"
    and wf: "\<forall>x\<in>set fin \<union> set (pre @ r # post). wf_row k x"
    and jk: "j < k"
    and nz: "fst r ! j \<noteq> 0"
    and p: "p = row_scale (1 / (fst r ! j)) r"
  shows "reduced (Suc j) (map (row_elim j p) fin @ [p]) (map (row_elim j p) (pre @ post))"
proof -
  have wfr: "wf_row k r" and wfp: "wf_row k p" using wf p by simp_all
  have lr: "length (fst r) = k" using wfr by (simp add: wf_row_def)
  have r0: "\<forall>l<j. fst r ! l = 0" using red by (simp add: reduced_def)
  have p0: "\<forall>l<j. fst p ! l = 0"
    using r0 jk lr by (simp add: p fst_row_scale_nth)
  have p1: "fst p ! j = 1"
    using nz jk lr by (simp add: p fst_row_scale_nth)
  have el_lt: "fst (row_elim j p x) ! l = fst x ! l" if "wf_row k x" "l < j" for x l
    using that p0 jk by (simp add: fst_row_elim_nth [OF wfp])
  have el_eq: "fst (row_elim j p x) ! j = 0" if "wf_row k x" for x
    using that p1 jk by (simp add: fst_row_elim_nth [OF wfp])
  have lf: "length fin = j" using red by (simp add: reduced_def)
  have fin: "fst ((map (row_elim j p) fin @ [p]) ! i) ! l = (if l = i then 1 else 0)"
    if "i < Suc j" "l < Suc j" for i l
  proof (cases "i < j")
    case True
    then have wfi: "wf_row k (fin ! i)" using wf lf by simp
    have old: "l < j \<Longrightarrow> fst (fin ! i) ! l = (if l = i then 1 else 0)"
      using red True by (simp add: reduced_def)
    have "(map (row_elim j p) fin @ [p]) ! i = row_elim j p (fin ! i)"
      using True lf by (simp add: nth_append)
    then show ?thesis
      using that True old el_lt [OF wfi] el_eq [OF wfi] by (cases "l = j") auto
  next
    case False
    then have "i = j" using that by simp
    then have "(map (row_elim j p) fin @ [p]) ! i = p"
      using lf by (simp add: nth_append)
    then show ?thesis
      using that \<open>i = j\<close> p0 p1 by (cases "l = j") auto
  qed
  have rest: "fst x ! l = 0" if "x \<in> set (map (row_elim j p) (pre @ post))" "l < Suc j" for x l
  proof -
    from that(1) obtain y where y: "y \<in> set pre \<union> set post" "x = row_elim j p y" by auto
    then have wfy: "wf_row k y" using wf by auto
    have "\<forall>l<j. fst y ! l = 0" using red y(1) by (auto simp: reduced_def)
    then show ?thesis
      using that(2) y(2) el_lt [OF wfy] el_eq [OF wfy] by (cases "l = j") auto
  qed
  show ?thesis
    unfolding reduced_def using lf fin rest by auto
qed

lemma gj_shape:
  assumes "gauss_jordan js fin rest = Some out"
    and "js = [j..<k]" and "j \<le> k"
    and "reduced j fin rest"
    and "\<forall>x\<in>set fin \<union> set rest. wf_row k x"
  shows "reduced k out []"
  using assms
proof (induction js arbitrary: j fin rest)
  case Nil
  from Nil(2) [symmetric] Nil(3) have "j = k" by auto
  then show ?case using Nil by (simp add: reduced_def)
next
  case (Cons j' js)
  from Cons.prems(2) [symmetric] have j: "j' = j" "j < k" "js = [Suc j..<k]"
    by (auto simp: upt_eq_Cons_conv)
  from Cons.prems(1) obtain pre r post
    where ex: "List.extract (\<lambda>r. fst r ! j \<noteq> 0) rest = Some (pre, r, post)"
    by (auto simp: j split: option.splits)
  define p where "p = row_scale (1 / (fst r ! j)) r"
  from ex have rest: "rest = pre @ r # post" and nz: "fst r ! j \<noteq> 0"
    by (simp_all add: extract_Some_iff)
  have call: "gauss_jordan js (map (row_elim j p) fin @ [p]) (map (row_elim j p) (pre @ post)) = Some out"
    using Cons.prems(1) ex by (simp add: p_def j Let_def)
  have red: "reduced (Suc j) (map (row_elim j p) fin @ [p]) (map (row_elim j p) (pre @ post))"
    using reduced_step [OF _ _ j(2) nz p_def] Cons.prems(4,5) rest by simp
  have wfp: "wf_row k p" using Cons.prems(5) rest by (simp add: p_def)
  have wfold: "\<forall>x\<in>set fin \<union> set pre \<union> set post. wf_row k x"
    using Cons.prems(5) rest by auto
  have wfnew: "\<forall>x\<in>set (map (row_elim j p) fin @ [p]) \<union> set (map (row_elim j p) (pre @ post)). wf_row k x"
  proof
    fix x
    assume "x \<in> set (map (row_elim j p) fin @ [p]) \<union> set (map (row_elim j p) (pre @ post))"
    then consider "x = p" | y where "y \<in> set fin \<union> set pre \<union> set post" "x = row_elim j p y"
      by auto
    then show "wf_row k x"
      using wfp wfold wf_row_elim by cases blast+
  qed
  show ?case
    using Cons.IH [OF call j(3) _ red wfnew] j(2) by simp
qed

section \<open>What \<open>inv\<close> returns\<close>

text \<open>
  When \<open>inv\<close> returns a matrix \<open>B\<close> for a square \<open>A\<close>, then \<open>A v = u\<close> exactly when
  \<open>v = B u\<close>; so a matrix that sends a non-zero vector to zero makes \<open>inv\<close> raise.
\<close>

lemma is_matD:
  assumes "is_mat n k M"
  shows "nrows M = n" "ncols M = k" "length (elems M) = n"
    "\<And>r. r \<in> set (elems M) \<Longrightarrow> length r = k"
    "\<And>i. i < n \<Longrightarrow> length (elems M ! i) = k"
  using assms by (auto simp: is_mat_def list_all_iff)

lemma is_matI:
  assumes "nrows M = n" "ncols M = k" "length (elems M) = n"
    "\<And>i. i < n \<Longrightarrow> length (elems M ! i) = k"
  shows "is_mat n k M"
  using assms by (auto simp: is_mat_def list_all_iff in_set_conv_nth)

lemma length_unit_vec [simp]: "length (unit_vec n i) = n"
  by (simp add: unit_vec_def)

lemma nth_unit_vec [simp]: "l < n \<Longrightarrow> unit_vec n i ! l = (if i = l then 1 else 0)"
  by (simp add: unit_vec_def)

lemma dot_unit_left:
  assumes "i < n" "length v = n"
  shows "dot (unit_vec n i) v = v ! i"
proof -
  have "dot (unit_vec n i) v = (\<Sum>l<n. unit_vec n i ! l * v ! l)"
    using assms dot_nth [of "unit_vec n i" v] by simp
  also have "\<dots> = (\<Sum>l<n. if i = l then v ! l else 0)"
    by (intro sum.cong) simp_all
  also have "\<dots> = v ! i"
    using assms by (simp add: sum.delta')
  finally show ?thesis .
qed

lemma is_mat_id [simp]: "is_mat n n (mat_id n)"
  by (rule is_matI) (simp_all add: mat_id_def)

lemma length_mvec [simp]: "length (mvec M v) = length (elems M)"
  by (simp add: mvec_def)

lemma nth_mvec: "i < length (elems M) \<Longrightarrow> mvec M v ! i = dot (elems M ! i) v"
  by (simp add: mvec_def)

lemma init_sat:
  assumes A: "is_mat n n A" and u: "length u = n"
  shows "(\<forall>x\<in>set (zip (elems A) (elems (mat_id n))). sat v u x) = (mvec A v = u)"
proof -
  have len: "length (zip (elems A) (elems (mat_id n))) = n"
    using is_matD(3) [OF A] by (simp add: mat_id_def)
  have row: "sat v u (zip (elems A) (elems (mat_id n)) ! i) = (mvec A v ! i = u ! i)" if "i < n" for i
    using that is_matD(3) [OF A] u
    by (simp add: sat_def nth_mvec mat_id_def dot_unit_left)
  have "(\<forall>x\<in>set (zip (elems A) (elems (mat_id n))). sat v u x)
      = (\<forall>i<n. sat v u (zip (elems A) (elems (mat_id n)) ! i))"
    using len by (simp add: all_set_conv_all_nth)
  also have "\<dots> = (\<forall>i<n. mvec A v ! i = u ! i)"
    using row by simp
  also have "\<dots> = (mvec A v = u)"
    using is_matD(3) [OF A] u by (auto simp: list_eq_iff_nth_eq)
  finally show ?thesis .
qed

lemma init_wf:
  assumes A: "is_mat n n A"
  shows "\<forall>x\<in>set [] \<union> set (zip (elems A) (elems (mat_id n))). wf_row n x"
proof
  fix x
  assume "x \<in> set [] \<union> set (zip (elems A) (elems (mat_id n)))"
  then have "(fst x, snd x) \<in> set (zip (elems A) (elems (mat_id n)))"
    by simp
  then have "fst x \<in> set (elems A)" "snd x \<in> set (elems (mat_id n))"
    by (rule set_zip_leftD, rule set_zip_rightD)
  then show "wf_row n x"
    using is_matD(4) [OF A] is_matD(4) [OF is_mat_id [of n]] by (simp add: wf_row_def)
qed

lemma out_sat:
  assumes red: "reduced n out []" and wf: "\<forall>x\<in>set out. wf_row n x" and v: "length v = n"
  shows "(\<forall>x\<in>set out. sat v u x) = (v = mvec (Mat n n (map snd out)) u)"
proof -
  have len: "length out = n" using red by (simp add: reduced_def)
  have unit: "fst (out ! i) = unit_vec n i" if "i < n" for i
  proof (rule nth_equalityI)
    show "length (fst (out ! i)) = length (unit_vec n i)"
      using wf that len by (simp add: wf_row_def)
  next
    fix l
    assume "l < length (fst (out ! i))"
    then have "l < n" using wf that len by (simp add: wf_row_def)
    then show "fst (out ! i) ! l = unit_vec n i ! l"
      using red that by (auto simp: reduced_def)
  qed
  have row: "sat v u (out ! i) = (v ! i = mvec (Mat n n (map snd out)) u ! i)" if "i < n" for i
    using that len v by (simp add: sat_def unit dot_unit_left nth_mvec)
  have "(\<forall>x\<in>set out. sat v u x) = (\<forall>i<n. sat v u (out ! i))"
    using len by (simp add: all_set_conv_all_nth)
  also have "\<dots> = (\<forall>i<n. v ! i = mvec (Mat n n (map snd out)) u ! i)"
    using row by simp
  also have "\<dots> = (v = mvec (Mat n n (map snd out)) u)"
    using len v by (auto simp: list_eq_iff_nth_eq)
  finally show ?thesis .
qed

lemma inv_error: "inv A = Inl e \<Longrightarrow> e = LinAlgError"
  by (auto simp: inv_def split: if_splits option.splits)

lemma inv_Inr:
  assumes A: "is_mat n n A" and res: "inv A = Inr B"
  shows "is_mat n n B"
    and "\<And>v u. length v = n \<Longrightarrow> length u = n \<Longrightarrow> (mvec A v = u) = (v = mvec B u)"
proof -
  have sq: "nrows A = n" "ncols A = n" using is_matD [OF A] by simp_all
  from res obtain out
    where gj: "gauss_jordan [0..<n] [] (zip (elems A) (elems (mat_id n))) = Some out"
      and B: "B = Mat n n (map snd out)"
    by (auto simp: inv_def sq split: option.splits)
  have len: "length (zip (elems A) (elems (mat_id n))) = length [0..<n]"
    using is_matD(3) [OF A] by (simp add: mat_id_def)
  have red0: "reduced 0 [] (zip (elems A) (elems (mat_id n)))"
    by (simp add: reduced_def)
  have wfout: "\<forall>x\<in>set out. wf_row n x"
    using gj_sound [OF gj len init_wf [OF A]] by simp
  have red: "reduced n out []"
    using gj_shape [OF gj refl _ red0 init_wf [OF A]] by simp
  have lout: "length out = n" using red by (simp add: reduced_def)
  show "is_mat n n B"
    using wfout lout by (auto simp: B is_mat_def list_all_iff wf_row_def)
  fix v u :: vec
  assume v: "length v = n" and u: "length u = n"
  have "(\<forall>x\<in>set out. sat v u x) = (\<forall>x\<in>set [] \<union> set (zip (elems A) (elems (mat_id n))). sat v u x)"
    using gj_sound [OF gj len init_wf [OF A]] by simp
  then show "(mvec A v = u) = (v = mvec B u)"
    using init_sat [OF A u, of v] out_sat [OF red wfout v, of u] by (simp add: B)
qed

lemma mvec_zeros: "is_mat n k M \<Longrightarrow> mvec M (zeros k) = zeros n"
  by (rule nth_equalityI) (simp_all add: nth_mvec is_matD)

lemma inv_singular:
  assumes A: "is_mat n n A" and v: "length v = n" "v \<noteq> zeros n" "mvec A v = zeros n"
  shows "inv A = Inl LinAlgError"
proof (cases "inv A")
  case (Inl e)
  then show ?thesis using inv_error by blast
next
  case (Inr B)
  note B = inv_Inr [OF A Inr]
  have "v = mvec B (zeros n)" using B(2) [OF v(1), of "zeros n"] v(3) by simp
  then show ?thesis using v(2) mvec_zeros [OF B(1)] by simp
qed

lemma is_mat_diag: "length v = n \<Longrightarrow> is_mat n n (diag v)"
  by (rule is_matI) (simp_all add: diag_def)

lemma mat_pow2_diag: "mat_pow2 (diag v) = diag (map (\<lambda>x. x ^ 2) v)"
  by (simp add: mat_pow2_def diag_def)

lemma diag_row: "i < length d \<Longrightarrow> elems (diag d) ! i = map ((*) (d ! i)) (unit_vec (length d) i)"
  by (simp add: diag_def unit_vec_def)

lemma mvec_diag: "length v = length d \<Longrightarrow> mvec (diag d) v = map2 (*) d v"
proof (rule nth_equalityI)
  show "length v = length d \<Longrightarrow> length (mvec (diag d) v) = length (map2 (*) d v)"
    by (simp add: diag_def)
next
  fix i
  assume lv: "length v = length d" and "i < length (mvec (diag d) v)"
  then have i: "i < length d" by (simp add: diag_def)
  have "mvec (diag d) v ! i = dot (elems (diag d) ! i) v"
    using i by (simp add: nth_mvec diag_def)
  also have "\<dots> = d ! i * v ! i"
    using i lv by (simp add: diag_row dot_scale_left dot_unit_left)
  finally show "mvec (diag d) v ! i = map2 (*) d v ! i"
    using i lv by simp
qed

lemma ebind_simps [simp]: "ebind (Inl e) f = Inl e" "ebind (Inr x) f = f x"
  by (simp_all add: ebind_def)

lemma inv_diag_zero:
  assumes z: "0 \<in> set \<sigma>"
  shows "inv (mat_pow2 (diag \<sigma>)) = Inl LinAlgError"
proof -
  define n where "n = length \<sigma>"
  from z obtain i where i: "i < n" "\<sigma> ! i = 0"
    by (auto simp: in_set_conv_nth n_def)
  have A: "is_mat n n (diag (map (\<lambda>x. x ^ 2) \<sigma>))"
    by (simp add: is_mat_diag n_def)
  have nz: "unit_vec n i \<noteq> zeros n"
  proof
    assume "unit_vec n i = zeros n"
    then have "unit_vec n i ! i = zeros n ! i" by simp
    then show False using i(1) by simp
  qed
  have "mvec (diag (map (\<lambda>x. x ^ 2) \<sigma>)) (unit_vec n i) = zeros n"
  proof (rule nth_equalityI)
    show "length (mvec (diag (map (\<lambda>x. x ^ 2) \<sigma>)) (unit_vec n i)) = length (zeros n)"
      using is_matD(3) [OF A] by simp
  next
    fix l
    assume "l < length (mvec (diag (map (\<lambda>x. x ^ 2) \<sigma>)) (unit_vec n i))"
    then have l: "l < n" using is_matD(3) [OF A] by simp
    then show "mvec (diag (map (\<lambda>x. x ^ 2) \<sigma>)) (unit_vec n i) ! l = zeros n ! l"
      using i by (auto simp: mvec_diag n_def)
  qed
  then show ?thesis
    using inv_singular [OF A _ nz] by (simp add: mat_pow2_diag)
qed

section \<open>The claims about the solver\<close>

lemmas eval_defs = linreg_def ebind_def inv_def diag_def mat_pow2_def mat_id_def unit_vec_def
  matmul_def matvec_def mvec_def mmul_def mat_T_def col_def dot_def
  List.extract_def row_scale_def row_elim_def axpy_def upt_rec
  weights_def weight_mat_def normal_mat_def is_mat_def zeros_def

text \<open>
  Claim C4 says that an uncertainty entry \<open>\<le> 0\<close> makes the solver fail.  A negative entry
  does not: with \<open>\<sigma> = [-1, 2]\<close> the solver returns a result.
\<close>

theorem nonpositive_uncertainty_counterexample:
  "(- 1 :: real) \<le> 0 \<and>
   linreg (Mat 2 1 [[1], [1]]) [3, 3] [- 1, 2] = Inr ([3], Mat 1 1 [[4 / 5]])"
  by (simp add: eval_defs)

text \<open>
  Claim C4, amended.  An uncertainty entry equal to zero makes the solver fail with
  \<open>LinAlgError\<close>, whatever the other arguments are: the inversion of \<open>diag(err)\<^sup>2\<close> is the
  first thing evaluated, and nothing replaces the zero by a small positive value.
\<close>

theorem zero_uncertainty_raises:
  assumes "0 \<in> set \<sigma>"
  shows "linreg X y \<sigma> = Inl LinAlgError"
  using assms by (simp add: linreg_def inv_diag_zero)

theorem zero_uncertainty_raises_witness:
  "linreg (Mat 2 1 [[1], [1]]) [3, 3] [2, 0] = Inl LinAlgError"
  by (rule zero_uncertainty_raises) simp

text \<open>
  Claim C10.  The solver returns the same result, or the same error, on \<open>\<sigma>\<close> and on
  the entrywise absolute values of \<open>\<sigma>\<close>: the uncertainties enter only through their
  squares.
\<close>

theorem linreg_sign_invariant:
  "linreg X y \<sigma> = linreg X y (map abs \<sigma>)"
proof -
  have "mat_pow2 (diag (map abs \<sigma>)) = mat_pow2 (diag \<sigma>)"
    by (simp add: mat_pow2_diag comp_def)
  then show ?thesis by (simp add: linreg_def)
qed

section \<open>The reconstruction, the shapes and the calls\<close>

lemma sum_list_upt: "sum_list (map f [0..<m]) = (\<Sum>j<m. f j :: real)"
  by (simp add: interv_sum_list_conv_sum_set_nat atLeast0LessThan)

lemma dot_sum_list:
  assumes "length a = k" "length b = k"
  shows "dot a b = sum_list (map (\<lambda>j. a ! j * b ! j) [0..<k])"
  using assms dot_nth [of a b] by (simp add: sum_list_upt)

lemma dot_butlast:
  assumes "length a = k" "length b = k"
  shows "dot (butlast a) (butlast b) = sum_list (map (\<lambda>j. a ! j * b ! j) [0..<k - 1])"
proof -
  have "dot (butlast a) (butlast b) = (\<Sum>j<k - 1. butlast a ! j * butlast b ! j)"
    using assms dot_nth [of "butlast a" "butlast b"] by simp
  also have "\<dots> = (\<Sum>j<k - 1. a ! j * b ! j)"
    using assms by (intro sum.cong) (simp_all add: nth_butlast)
  finally show ?thesis by (simp add: sum_list_upt)
qed

lemma filter_not_last: "filter (\<lambda>j. j \<noteq> k - Suc 0) [0..<k] = [0..<k - Suc 0]"
proof (cases k)
  case 0
  then show ?thesis by simp
next
  case (Suc m)
  have "filter (\<lambda>j. j \<noteq> m) [0..<m] = [0..<m]"
    by (rule filter_True) simp
  then show ?thesis using Suc by simp
qed

text \<open>
  Claim C7.  For a design matrix, a coefficient vector and an observation vector of
  fitting shapes, the model vector is the matrix-vector product \<open>X \<beta>\<close>, and the
  recovered signal is \<open>y\<close> minus the product of \<open>X\<close> without its last column (the
  signal template) with \<open>\<beta>\<close> without its last entry.
\<close>

theorem reconstruction_refines_spec:
  assumes X: "is_mat n k X" and b: "length \<beta> = k" and y: "length y = n"
  shows "best_flux_model X \<beta> = Inr (model_spec X \<beta>) \<and>
         recovered_signal X \<beta> y = Inr (recovered_spec (k - 1) X \<beta> y)"
proof
  have "mvec X \<beta> = model_spec X \<beta>"
  proof (rule nth_equalityI)
    show "length (mvec X \<beta>) = length (model_spec X \<beta>)"
      using is_matD(1,3) [OF X] by (simp add: model_spec_def)
  next
    fix i
    assume "i < length (mvec X \<beta>)"
    then have i: "i < n" using is_matD(3) [OF X] by simp
    then show "mvec X \<beta> ! i = model_spec X \<beta> ! i"
      using is_matD(1,2,3) [OF X] dot_sum_list [OF is_matD(5) [OF X i] b]
      by (simp add: nth_mvec model_spec_def)
  qed
  then show "best_flux_model X \<beta> = Inr (model_spec X \<beta>)"
    using is_matD(2) [OF X] b by (simp add: best_flux_model_def matvec_def)
next
  let ?m = "mvec (drop_last_col X) (butlast \<beta>)"
  have lm: "length ?m = n" using is_matD(3) [OF X] by (simp add: drop_last_col_def)
  have mv: "matvec (drop_last_col X) (butlast \<beta>) = Inr ?m"
    using is_matD(2) [OF X] b by (simp add: matvec_def drop_last_col_def)
  have "map2 (-) y ?m = recovered_spec (k - 1) X \<beta> y"
  proof (rule nth_equalityI)
    show "length (map2 (-) y ?m) = length (recovered_spec (k - 1) X \<beta> y)"
      using lm y is_matD(1) [OF X] by (simp add: recovered_spec_def)
  next
    fix i
    assume "i < length (map2 (-) y ?m)"
    then have i: "i < n" using lm y by simp
    have "?m ! i = dot (butlast (elems X ! i)) (butlast \<beta>)"
      using i is_matD(3) [OF X] by (simp add: nth_mvec drop_last_col_def)
    then show "map2 (-) y ?m ! i = recovered_spec (k - 1) X \<beta> y ! i"
      using i lm y is_matD(1,2) [OF X] dot_butlast [OF is_matD(5) [OF X i] b]
      by (simp add: recovered_spec_def filter_not_last)
  qed
  then show "recovered_signal X \<beta> y = Inr (recovered_spec (k - 1) X \<beta> y)"
    using lm y by (simp add: recovered_signal_def mv vsub_def)
qed

theorem reconstruction_refines_spec_witness:
  "best_flux_model (Mat 2 3 [[1, 2, 3], [4, 5, 6]]) [1, 1, 2] = Inr [9, 21] \<and>
   model_spec (Mat 2 3 [[1, 2, 3], [4, 5, 6]]) [1, 1, 2] = [9, 21] \<and>
   recovered_signal (Mat 2 3 [[1, 2, 3], [4, 5, 6]]) [1, 1, 2] [10, 20] = Inr [7, 11] \<and>
   recovered_spec (3 - 1) (Mat 2 3 [[1, 2, 3], [4, 5, 6]]) [1, 1, 2] [10, 20] = [7, 11]"
proof -
  have h1: "is_mat 2 3 (Mat 2 3 [[1, 2, 3], [4, 5, 6]])" by (simp add: is_mat_def)
  have h2: "length [1, 1, 2 :: real] = 3" by simp
  have h3: "length [10, 20 :: real] = 2" by simp
  have e1: "model_spec (Mat 2 3 [[1, 2, 3], [4, 5, 6]]) [1, 1, 2] = [9, 21]"
    by (simp add: model_spec_def upt_rec)
  have e2: "recovered_spec (3 - 1) (Mat 2 3 [[1, 2, 3], [4, 5, 6]]) [1, 1, 2] [10, 20] = [7, 11]"
    by (simp add: recovered_spec_def upt_rec)
  from reconstruction_refines_spec [OF h1 h2 h3] e1 e2 show ?thesis
    by simp
qed

text \<open>
  Claim C8 says that a disagreement of lengths is reported as a dimension error before
  any numeric work.  With an observation vector one entry short and a design matrix
  of two equal columns, the error raised is the one of the inversion, which has run
  first.
\<close>

theorem shape_mismatch_counterexample:
  "length [7 :: real] = nrows (Mat 2 2 [[1, 1], [1, 1]]) - 1 \<and>
   linreg (Mat 2 2 [[1, 1], [1, 1]]) [7] [1, 1] = Inl LinAlgError \<and>
   linreg (Mat 2 2 [[1, 1], [1, 1]]) [7] [1, 1] \<noteq> Inl ValueError"
  by (simp add: eval_defs)

lemma vstack_ragged:
  assumes "a \<in> set vs" "b \<in> set vs" "length a \<noteq> length b"
  shows "vstack vs = Inl ValueError"
proof (cases vs)
  case Nil
  then show ?thesis by (simp add: vstack_def)
next
  case (Cons v ws)
  have "\<not> list_all (\<lambda>w. length w = length v) vs"
  proof
    assume "list_all (\<lambda>w. length w = length v) vs"
    then have "length a = length v" "length b = length v"
      using assms(1,2) by (simp_all add: list_all_iff)
    then show False using assms(3) by simp
  qed
  then show ?thesis using Cons by (simp add: vstack_def)
qed

lemma inv_shape:
  assumes "inv A = Inr B"
  shows "nrows B = nrows A" "ncols B = nrows A"
  using assms by (auto simp: inv_def split: if_splits option.splits)

lemma shape_simps [simp]:
  "nrows (mmul A B) = nrows A" "ncols (mmul A B) = ncols B"
  "nrows (mat_T M) = ncols M" "ncols (mat_T M) = nrows M"
  "nrows (diag v) = length v" "ncols (diag v) = length v"
  "nrows (mat_pow2 M) = nrows M" "ncols (mat_pow2 M) = ncols M"
  by (simp_all add: mmul_def mat_T_def diag_def mat_pow2_def)

text \<open>
  Claim C8, amended.  When the length of the observation vector or of the uncertainty
  vector differs from the row count of the design matrix, the solver returns no
  result: it raises, and nothing is truncated or padded.  The check is not eager; it
  is made by the first product whose operands do not fit, which raises \<open>ValueError\<close>,
  unless an inversion that runs before that product raises \<open>LinAlgError\<close>: the
  inversion of \<open>diag(err)\<^sup>2\<close> for an uncertainty vector of the wrong length, and that one
  and the inversion of \<open>X\<^sup>TWX\<close> for an observation vector of the wrong length.  Basis
  vectors of different lengths make the builder \<open>np.vstack(...).T\<close> raise \<open>ValueError\<close>.
\<close>

theorem shape_mismatch_raises:
  assumes X: "is_mat n k X" and mis: "length y \<noteq> n \<or> length \<sigma> \<noteq> n"
  shows "(\<exists>e. linreg X y \<sigma> = Inl e) \<and>
    (length \<sigma> \<noteq> n \<longrightarrow>
       linreg X y \<sigma> =
         (case inv (mat_pow2 (diag \<sigma>)) of
            Inl e \<Rightarrow> Inl LinAlgError
          | Inr W \<Rightarrow> Inl ValueError)) \<and>
    (length \<sigma> = n \<longrightarrow>
       linreg X y \<sigma> =
         (case inv (mat_pow2 (diag \<sigma>)) of
            Inl e \<Rightarrow> Inl LinAlgError
          | Inr W \<Rightarrow>
              (case inv (mmul (mmul (mat_T X) W) X) of
                 Inl e \<Rightarrow> Inl LinAlgError
               | Inr C \<Rightarrow> Inl ValueError))) \<and>
    (\<forall>vs. (\<exists>a\<in>set vs. \<exists>b\<in>set vs. length a \<noteq> length b) \<longrightarrow> vstack_T vs = Inl ValueError)"
proof -
  have sh: "nrows X = n" "ncols X = k" using is_matD(1,2) [OF X] .
  have wrong_s: "linreg X y \<sigma> =
      (case inv (mat_pow2 (diag \<sigma>)) of Inl e \<Rightarrow> Inl LinAlgError | Inr W \<Rightarrow> Inl ValueError)"
    if ne: "length \<sigma> \<noteq> n"
  proof (cases "inv (mat_pow2 (diag \<sigma>))")
    case (Inl e)
    then show ?thesis using inv_error [OF Inl] by (simp add: linreg_def)
  next
    case (Inr W)
    have "nrows W = length \<sigma>" using inv_shape(1) [OF Inr] by simp
    then have "matmul (mat_T X) W = Inl ValueError"
      using ne sh by (simp add: matmul_def)
    then show ?thesis using Inr by (simp add: linreg_def)
  qed
  have wrong_y: "linreg X y \<sigma> =
      (case inv (mat_pow2 (diag \<sigma>)) of
         Inl e \<Rightarrow> Inl LinAlgError
       | Inr W \<Rightarrow>
           (case inv (mmul (mmul (mat_T X) W) X) of
              Inl e \<Rightarrow> Inl LinAlgError
            | Inr C \<Rightarrow> Inl ValueError))"
    if eq: "length \<sigma> = n"
  proof (cases "inv (mat_pow2 (diag \<sigma>))")
    case (Inl e)
    then show ?thesis using inv_error [OF Inl] by (simp add: linreg_def)
  next
    case W: (Inr W)
    have shW: "nrows W = n" "ncols W = n" using inv_shape [OF W] eq by simp_all
    have m1: "matmul (mat_T X) W = Inr (mmul (mat_T X) W)"
      using sh shW by (simp add: matmul_def)
    have m2: "matmul (mmul (mat_T X) W) X = Inr (mmul (mmul (mat_T X) W) X)"
      using sh shW by (simp add: matmul_def)
    show ?thesis
    proof (cases "inv (mmul (mmul (mat_T X) W) X)")
      case (Inl e)
      then show ?thesis using W inv_error [OF Inl] by (simp add: linreg_def m1 m2)
    next
      case C: (Inr C)
      have shC: "nrows C = k" "ncols C = k" using inv_shape [OF C] sh by simp_all
      have m3: "matmul C (mat_T X) = Inr (mmul C (mat_T X))"
        using sh shC by (simp add: matmul_def)
      have m4: "matmul (mmul C (mat_T X)) W = Inr (mmul (mmul C (mat_T X)) W)"
        using sh shW by (simp add: matmul_def)
      have "length y \<noteq> n" using mis eq by simp
      then have m5: "matvec (mmul (mmul C (mat_T X)) W) y = Inl ValueError"
        using shW by (simp add: matvec_def)
      show ?thesis using W C by (simp add: linreg_def m1 m2 m3 m4 m5)
    qed
  qed
  have raises: "\<exists>e. linreg X y \<sigma> = Inl e"
  proof (cases "length \<sigma> = n")
    case True
    show ?thesis unfolding wrong_y [OF True] by (simp split: sum.split)
  next
    case False
    show ?thesis unfolding wrong_s [OF False] by (simp split: sum.split)
  qed
  have ragged: "\<forall>vs. (\<exists>a\<in>set vs. \<exists>b\<in>set vs. length a \<noteq> length b) \<longrightarrow> vstack_T vs = Inl ValueError"
    using vstack_ragged by (auto simp: vstack_T_def)
  show ?thesis using raises wrong_s wrong_y ragged by blast
qed

theorem shape_mismatch_raises_witness:
  "linreg (Mat 3 2 [[0, 1], [1, 1], [2, 1]]) [7, 10] [1, 1, 1] = Inl ValueError \<and>
   linreg (Mat 3 2 [[0, 1], [1, 1], [2, 1]]) [7, 10, 13] [1, 1] = Inl ValueError \<and>
   linreg (Mat 2 2 [[2, 2], [2, 2]]) [7] [1, 1] = Inl LinAlgError \<and>
   vstack_T [[1, 2, 3], [4, 5]] = Inl ValueError"
proof -
  let ?X = "Mat 3 2 [[0, 1], [1, 1], [2, 1]]"
  let ?S = "Mat 2 2 [[2, 2], [2, 2]]"
  have h1: "is_mat 3 2 ?X" and h2: "is_mat 2 2 ?S" by (simp_all add: is_mat_def)
  have a: "length [7, 10 :: real] \<noteq> 3 \<or> length [1, 1, 1 :: real] \<noteq> 3"
    and b: "length [7, 10, 13 :: real] \<noteq> 3 \<or> length [1, 1 :: real] \<noteq> 3"
    and c: "length [7 :: real] \<noteq> 2 \<or> length [1, 1 :: real] \<noteq> 2"
    by simp_all
  have la: "length [1, 1, 1 :: real] = 3" and lb: "length [1, 1 :: real] \<noteq> 3"
    and lc: "length [1, 1 :: real] = 2"
    by simp_all
  have r: "\<exists>a\<in>set [[1, 2, 3], [4, 5 :: real]]. \<exists>b\<in>set [[1, 2, 3], [4, 5]]. length a \<noteq> length b"
    by (rule bexI [of _ "[1, 2, 3]"], rule bexI [of _ "[4, 5]"]) simp_all
  note ta = shape_mismatch_raises [OF h1 a]
  note tb = shape_mismatch_raises [OF h1 b]
  note tc = shape_mismatch_raises [OF h2 c]
  have i3: "inv (mat_pow2 (diag [1, 1, 1])) = Inr (Mat 3 3 [[1, 0, 0], [0, 1, 0], [0, 0, 1]])"
    by (simp add: eval_defs)
  have i2: "inv (mat_pow2 (diag [1, 1])) = Inr (Mat 2 2 [[1, 0], [0, 1]])"
    by (simp add: eval_defs)
  have n3: "inv (mmul (mmul (mat_T ?X) (Mat 3 3 [[1, 0, 0], [0, 1, 0], [0, 0, 1]])) ?X)
      = Inr (Mat 2 2 [[1 / 2, - (1 / 2)], [- (1 / 2), 5 / 6]])"
    by (simp add: eval_defs)
  have n2: "inv (mmul (mmul (mat_T ?S) (Mat 2 2 [[1, 0], [0, 1]])) ?S) = Inl LinAlgError"
    by (simp add: eval_defs)
  have "linreg ?X [7, 10] [1, 1, 1] = Inl ValueError"
    using ta [THEN conjunct2, THEN conjunct2, THEN conjunct1, THEN mp, OF la]
    by (simp only: i3 n3 sum.case)
  moreover have "linreg ?X [7, 10, 13] [1, 1] = Inl ValueError"
    using tb [THEN conjunct2, THEN conjunct1, THEN mp, OF lb]
    by (simp only: i2 sum.case)
  moreover have "linreg ?S [7] [1, 1] = Inl LinAlgError"
    using tc [THEN conjunct2, THEN conjunct2, THEN conjunct1, THEN mp, OF lc]
    by (simp only: i2 n2 sum.case)
  moreover have "vstack_T [[1, 2, 3], [4, 5]] = Inl ValueError"
    using ta [THEN conjunct2, THEN conjunct2, THEN conjunct2, THEN spec, THEN mp, OF r] .
  ultimately show ?thesis by blast
qed

lemma tbind_Inl [simp]: "tbind (Inl e) f = Inl e"
  by (simp add: tbind_def)

lemma tbind_Inr [simp]: "tbind (Inr (x, l)) f = map_sum id (\<lambda>(y, l'). (y, l @ l')) (f x)"
  by (cases "f x") (auto simp: tbind_def)

lemma record_call_simps [simp]:
  "record_call c (Inl e) = Inl e" "record_call c (Inr x) = Inr (x, [c])"
  by (simp_all add: record_call_def)

lemma result_tbind:
  "map_sum id fst (tbind m f) = ebind (map_sum id fst m) (\<lambda>x. map_sum id fst (f x))"
proof (cases m)
  case (Inl e)
  then show ?thesis by simp
next
  case (Inr p)
  then show ?thesis by (cases p; cases "f (fst p)") auto
qed

lemma result_record_call [simp]: "map_sum id fst (record_call c r) = r"
  by (cases r) simp_all

text \<open>The recorded run returns what \<open>linreg\<close> returns.\<close>

lemma linreg_traced_result: "map_sum id fst (linreg_traced X y \<sigma>) = linreg X y \<sigma>"
  by (simp add: linreg_traced_def linreg_def result_tbind inv_t_def matmul_t_def matvec_t_def)

text \<open>
  Claim C9 says that \<open>X\<^sup>TWX\<close> is formed once per call and its inverse reused.  The
  record of a run on a two-row, one-column input shows the product
  \<open>(X.T @ inv_N) @ X\<close> and the inversion of its result twice each.
\<close>

theorem inner_matrix_counterexample:
  "linreg_traced (Mat 2 1 [[1], [1]]) [3, 5] [1, 1] =
     Inr (([4], Mat 1 1 [[1 / 2]]),
       [Inv (Mat 2 2 [[1, 0], [0, 1]]),
        MatMul (Mat 1 2 [[1, 1]]) (Mat 2 2 [[1, 0], [0, 1]]),
        MatMul (Mat 1 2 [[1, 1]]) (Mat 2 1 [[1], [1]]),
        Inv (Mat 1 1 [[2]]),
        MatMul (Mat 1 1 [[1 / 2]]) (Mat 1 2 [[1, 1]]),
        MatMul (Mat 1 2 [[1 / 2, 1 / 2]]) (Mat 2 2 [[1, 0], [0, 1]]),
        MatVec (Mat 1 2 [[1 / 2, 1 / 2]]) [3, 5],
        MatMul (Mat 1 2 [[1, 1]]) (Mat 2 2 [[1, 0], [0, 1]]),
        MatMul (Mat 1 2 [[1, 1]]) (Mat 2 1 [[1], [1]]),
        Inv (Mat 1 1 [[2]])]) \<and>
   normal_mat (Mat 2 1 [[1], [1]]) [1, 1] = Mat 1 1 [[2]] \<and>
   map_sum id (\<lambda>r. count_list (snd r) (Inv (Mat 1 1 [[2]])))
     (linreg_traced (Mat 2 1 [[1], [1]]) [3, 5] [1, 1]) = Inr 2"
  by (simp add: linreg_traced_def inv_t_def matmul_t_def matvec_t_def eval_defs)

lemma tbind_eq_Inr:
  assumes "tbind m f = Inr (r, tr)"
  shows "\<exists>x l l'. m = Inr (x, l) \<and> f x = Inr (r, l') \<and> tr = l @ l'"
proof (cases m)
  case (Inl e)
  then show ?thesis using assms by simp
next
  case (Inr p)
  obtain x l where p: "p = (x, l)" by (cases p)
  show ?thesis
  proof (cases "f x")
    case (Inl e)
    then show ?thesis using assms Inr p by simp
  next
    case fx: (Inr q)
    obtain r' l' where q: "q = (r', l')" by (cases q)
    show ?thesis using assms Inr p fx q by simp
  qed
qed

lemma inv_t_step:
  assumes "tbind (inv_t A) f = Inr (r, tr)"
  shows "\<exists>B l. inv A = Inr B \<and> f B = Inr (r, l) \<and> tr = Inv A # l"
proof -
  from tbind_eq_Inr [OF assms] obtain x l l'
    where "inv_t A = Inr (x, l)" "f x = Inr (r, l')" "tr = l @ l'" by blast
  then show ?thesis by (cases "inv A") (auto simp: inv_t_def)
qed

lemma matmul_t_step:
  assumes "tbind (matmul_t A B) f = Inr (r, tr)"
  shows "\<exists>l. f (mmul A B) = Inr (r, l) \<and> tr = MatMul A B # l"
proof -
  from tbind_eq_Inr [OF assms] obtain x l l'
    where "matmul_t A B = Inr (x, l)" "f x = Inr (r, l')" "tr = l @ l'" by blast
  then show ?thesis
    by (cases "ncols A = nrows B") (auto simp: matmul_t_def matmul_def)
qed

lemma matvec_t_step:
  assumes "tbind (matvec_t A v) f = Inr (r, tr)"
  shows "\<exists>l. f (mvec A v) = Inr (r, l) \<and> tr = MatVec A v # l"
proof -
  from tbind_eq_Inr [OF assms] obtain x l l'
    where "matvec_t A v = Inr (x, l)" "f x = Inr (r, l')" "tr = l @ l'" by blast
  then show ?thesis
    by (cases "ncols A = length v") (auto simp: matvec_t_def matvec_def)
qed

text \<open>
  Claim C9, amended.  Whenever a call of the solver returns, it has formed \<open>X\<^sup>TWX\<close> twice
  and inverted it twice, once in the line of the coefficients and once in the line
  of the covariance; the two inversions have the same argument and return the same
  matrix, the returned covariance, and the returned coefficient vector is the product
  of that matrix with \<open>X\<^sup>T\<close>, \<open>W\<close> and \<open>y\<close>, the products taken from the left as the code
  takes them.
\<close>

theorem linreg_forms_inner_matrix_twice:
  assumes run: "linreg_traced X y \<sigma> = Inr ((\<beta>, cov), tr)"
  shows "\<exists>W. inv (mat_pow2 (diag \<sigma>)) = Inr W \<and>
           inv (mmul (mmul (mat_T X) W) X) = Inr cov \<and>
           \<beta> = mvec (mmul (mmul cov (mat_T X)) W) y \<and>
           linreg X y \<sigma> = Inr (\<beta>, cov) \<and>
           tr = [Inv (mat_pow2 (diag \<sigma>)),
                 MatMul (mat_T X) W,
                 MatMul (mmul (mat_T X) W) X,
                 Inv (mmul (mmul (mat_T X) W) X),
                 MatMul cov (mat_T X),
                 MatMul (mmul cov (mat_T X)) W,
                 MatVec (mmul (mmul cov (mat_T X)) W) y,
                 MatMul (mat_T X) W,
                 MatMul (mmul (mat_T X) W) X,
                 Inv (mmul (mmul (mat_T X) W) X)]"
proof -
  let ?N = "\<lambda>W. mmul (mmul (mat_T X) W) X"
  from inv_t_step [OF run [unfolded linreg_traced_def]]
  obtain W l1 where W: "inv (mat_pow2 (diag \<sigma>)) = Inr W"
    and t1: "tr = Inv (mat_pow2 (diag \<sigma>)) # l1"
    and s1: "tbind (matmul_t (mat_T X) W) (\<lambda>b1.
     tbind (matmul_t b1 X) (\<lambda>b2.
     tbind (inv_t b2) (\<lambda>b3.
     tbind (matmul_t b3 (mat_T X)) (\<lambda>b4.
     tbind (matmul_t b4 W) (\<lambda>b5.
     tbind (matvec_t b5 y) (\<lambda>betas.
     tbind (matmul_t (mat_T X) W) (\<lambda>c1.
     tbind (matmul_t c1 X) (\<lambda>c2.
     tbind (inv_t c2) (\<lambda>cov.
     Inr ((betas, cov), [])))))))))) = Inr ((\<beta>, cov), l1)"
    by blast
  from matmul_t_step [OF s1] obtain l2 where t2: "l1 = MatMul (mat_T X) W # l2"
    and s2: "tbind (matmul_t (mmul (mat_T X) W) X) (\<lambda>b2.
     tbind (inv_t b2) (\<lambda>b3.
     tbind (matmul_t b3 (mat_T X)) (\<lambda>b4.
     tbind (matmul_t b4 W) (\<lambda>b5.
     tbind (matvec_t b5 y) (\<lambda>betas.
     tbind (matmul_t (mat_T X) W) (\<lambda>c1.
     tbind (matmul_t c1 X) (\<lambda>c2.
     tbind (inv_t c2) (\<lambda>cov.
     Inr ((betas, cov), []))))))))) = Inr ((\<beta>, cov), l2)"
    by blast
  from matmul_t_step [OF s2] obtain l3 where t3: "l2 = MatMul (mmul (mat_T X) W) X # l3"
    and s3: "tbind (inv_t (?N W)) (\<lambda>b3.
     tbind (matmul_t b3 (mat_T X)) (\<lambda>b4.
     tbind (matmul_t b4 W) (\<lambda>b5.
     tbind (matvec_t b5 y) (\<lambda>betas.
     tbind (matmul_t (mat_T X) W) (\<lambda>c1.
     tbind (matmul_t c1 X) (\<lambda>c2.
     tbind (inv_t c2) (\<lambda>cov.
     Inr ((betas, cov), [])))))))) = Inr ((\<beta>, cov), l3)"
    by blast
  from inv_t_step [OF s3] obtain B l4 where B: "inv (?N W) = Inr B"
    and t4: "l3 = Inv (?N W) # l4"
    and s4: "tbind (matmul_t B (mat_T X)) (\<lambda>b4.
     tbind (matmul_t b4 W) (\<lambda>b5.
     tbind (matvec_t b5 y) (\<lambda>betas.
     tbind (matmul_t (mat_T X) W) (\<lambda>c1.
     tbind (matmul_t c1 X) (\<lambda>c2.
     tbind (inv_t c2) (\<lambda>cov.
     Inr ((betas, cov), []))))))) = Inr ((\<beta>, cov), l4)"
    by blast
  from matmul_t_step [OF s4] obtain l5 where t5: "l4 = MatMul B (mat_T X) # l5"
    and s5: "tbind (matmul_t (mmul B (mat_T X)) W) (\<lambda>b5.
     tbind (matvec_t b5 y) (\<lambda>betas.
     tbind (matmul_t (mat_T X) W) (\<lambda>c1.
     tbind (matmul_t c1 X) (\<lambda>c2.
     tbind (inv_t c2) (\<lambda>cov.
     Inr ((betas, cov), [])))))) = Inr ((\<beta>, cov), l5)"
    by blast
  from matmul_t_step [OF s5] obtain l6 where t6: "l5 = MatMul (mmul B (mat_T X)) W # l6"
    and s6: "tbind (matvec_t (mmul (mmul B (mat_T X)) W) y) (\<lambda>betas.
     tbind (matmul_t (mat_T X) W) (\<lambda>c1.
     tbind (matmul_t c1 X) (\<lambda>c2.
     tbind (inv_t c2) (\<lambda>cov.
     Inr ((betas, cov), []))))) = Inr ((\<beta>, cov), l6)"
    by blast
  from matvec_t_step [OF s6] obtain l7
    where t7: "l6 = MatVec (mmul (mmul B (mat_T X)) W) y # l7"
    and s7: "tbind (matmul_t (mat_T X) W) (\<lambda>c1.
     tbind (matmul_t c1 X) (\<lambda>c2.
     tbind (inv_t c2) (\<lambda>cov.
     Inr ((mvec (mmul (mmul B (mat_T X)) W) y, cov), [])))) = Inr ((\<beta>, cov), l7)"
    by blast
  from matmul_t_step [OF s7] obtain l8 where t8: "l7 = MatMul (mat_T X) W # l8"
    and s8: "tbind (matmul_t (mmul (mat_T X) W) X) (\<lambda>c2.
     tbind (inv_t c2) (\<lambda>cov.
     Inr ((mvec (mmul (mmul B (mat_T X)) W) y, cov), []))) = Inr ((\<beta>, cov), l8)"
    by blast
  from matmul_t_step [OF s8] obtain l9 where t9: "l8 = MatMul (mmul (mat_T X) W) X # l9"
    and s9: "tbind (inv_t (?N W)) (\<lambda>cov.
     Inr ((mvec (mmul (mmul B (mat_T X)) W) y, cov), [])) = Inr ((\<beta>, cov), l9)"
    by blast
  from inv_t_step [OF s9] obtain B' l10 where B': "inv (?N W) = Inr B'"
    and t10: "l9 = Inv (?N W) # l10"
    and s10: "Inr ((mvec (mmul (mmul B (mat_T X)) W) y, B'), []) = Inr ((\<beta>, cov), l10)"
    by blast
  from s10 have fin: "\<beta> = mvec (mmul (mmul B (mat_T X)) W) y" "cov = B'" "l10 = []"
    by simp_all
  from B B' have same: "B = B'" by simp
  have res: "linreg X y \<sigma> = Inr (\<beta>, cov)"
    using linreg_traced_result [of X y \<sigma>] run by simp
  show ?thesis
    using W B res fin same by (intro exI [of _ W]) (simp add: t1 t2 t3 t4 t5 t6 t7 t8 t9 t10)
qed

theorem linreg_forms_inner_matrix_twice_witness:
  "\<exists>W. inv (mat_pow2 (diag [1])) = Inr W \<and>
        inv (mmul (mmul (mat_T (Mat 1 1 [[2]])) W) (Mat 1 1 [[2]])) = Inr (Mat 1 1 [[1 / 4]]) \<and>
        [2] = mvec (mmul (mmul (Mat 1 1 [[1 / 4]]) (mat_T (Mat 1 1 [[2]]))) W) [4] \<and>
        linreg (Mat 1 1 [[2]]) [4] [1] = Inr ([2], Mat 1 1 [[1 / 4]])"
proof -
  have run: "linreg_traced (Mat 1 1 [[2]]) [4] [1] =
     Inr (([2], Mat 1 1 [[1 / 4]]),
       [Inv (Mat 1 1 [[1]]), MatMul (Mat 1 1 [[2]]) (Mat 1 1 [[1]]),
        MatMul (Mat 1 1 [[2]]) (Mat 1 1 [[2]]), Inv (Mat 1 1 [[4]]),
        MatMul (Mat 1 1 [[1 / 4]]) (Mat 1 1 [[2]]),
        MatMul (Mat 1 1 [[1 / 2]]) (Mat 1 1 [[1]]),
        MatVec (Mat 1 1 [[1 / 2]]) [4],
        MatMul (Mat 1 1 [[2]]) (Mat 1 1 [[1]]),
        MatMul (Mat 1 1 [[2]]) (Mat 1 1 [[2]]), Inv (Mat 1 1 [[4]])])"
    by (simp add: linreg_traced_def inv_t_def matmul_t_def matvec_t_def eval_defs)
  from linreg_forms_inner_matrix_twice [OF run] show ?thesis by blast
qed

end
